theory Spec2Isabelle
  imports Main "HOL-Library.Multiset" "HOL-Library.List_Lexorder"
begin

section \<open>Data model of \<^verbatim>\<open>popularity/models.py\<close>\<close>

text \<open>
  A \<^verbatim>\<open>datetime\<close> is a point on the time line counted in microseconds, and the difference
  of two of them (a \<^verbatim>\<open>timedelta\<close>) is a signed number of microseconds: both are exact
  integers in Python.
\<close>

type_synonym timestamp = int
type_synonym duration = int

text \<open>
  Modelled from the spec: the Entity Reference Resolver
  (\<^verbatim>\<open>django.contrib.contenttypes\<close>, not part of the source file).  A model class is
  named by its application label and its class name, and
  \<^verbatim>\<open>ContentType.objects.get_for_model\<close> maps it, deterministically and totally, to the
  content type of the same name.  It gives the same answer for an instance and for the
  instance's class.
\<close>

datatype model = Model string string

datatype content_type = ContentType string string

fun ct_get_for_model :: "model \<Rightarrow> content_type" where
  "ct_get_for_model (Model app name) = ContentType app name"

text \<open>A tracked object: its class (\<^verbatim>\<open>obj.__class__\<close>) and its primary key (\<^verbatim>\<open>obj.pk\<close>).\<close>

record content_object =
  cls :: model
  pk :: nat

text \<open>
  One row of the \<^verbatim>\<open>ViewTracker\<close> table, and at the same time the Python instance loaded
  from it.  \<^verbatim>\<open>row_id\<close> is the automatic primary key \<^verbatim>\<open>id\<close>; the two
  \<^verbatim>\<open>PositiveIntegerField\<close>s are natural numbers.
\<close>

record viewtracker =
  row_id :: nat
  content_type :: content_type
  object_id :: nat
  first_view :: timestamp
  last_view :: timestamp
  views :: nat

type_synonym table = "viewtracker list"

type_synonym entity_ref = "content_type \<times> nat"

definition ref_of :: "viewtracker \<Rightarrow> entity_ref" where
  "ref_of r = (content_type r, object_id r)"

definition resolve :: "content_object \<Rightarrow> entity_ref" where
  "resolve obj = (ct_get_for_model (cls obj), pk obj)"

datatype error =
    DoesNotExist | MultipleObjectsReturned | IntegrityError | AssertionError | AttributeError

section \<open>Queries\<close>

text \<open>
  A Django \<^verbatim>\<open>QuerySet\<close> is a description of a query, built step by step and run when it
  is read.  The description has a condition (the \<^verbatim>\<open>WHERE\<close> clause), an ordering (the
  \<^verbatim>\<open>ORDER BY\<close> clause), an optional limit (set by slicing a queryset, which no method
  of the source does) and the extra columns requested with \<^verbatim>\<open>extra(select=...)\<close>.
\<close>

datatype cond =
    Nothing
  | Everything
  | ContentTypeIn "content_type list"
  | ObjectIs content_type nat
  | Or cond cond

datatype field = Views | LastView | FirstView

datatype order_term = Asc field | Desc field

datatype sql_expr = Col field | Lit timestamp | Minus sql_expr sql_expr

record queryset =
  qs_where :: cond
  qs_order :: "order_term list"
  qs_limit :: "nat option"
  qs_extra :: "(string \<times> sql_expr) list"

fun matches :: "cond \<Rightarrow> viewtracker \<Rightarrow> bool" where
  "matches Nothing r = False"
| "matches Everything r = True"
| "matches (ContentTypeIn cts) r = (content_type r \<in> set cts)"
| "matches (ObjectIs ct oid) r = (content_type r = ct \<and> object_id r = oid)"
| "matches (Or c d) r = (matches c r \<or> matches d r)"

fun field_val :: "field \<Rightarrow> viewtracker \<Rightarrow> int" where
  "field_val Views r = int (views r)"
| "field_val LastView r = last_view r"
| "field_val FirstView r = first_view r"

fun sql_eval :: "sql_expr \<Rightarrow> viewtracker \<Rightarrow> int" where
  "sql_eval (Col f) r = field_val f r"
| "sql_eval (Lit v) r = v"
| "sql_eval (Minus a b) r = sql_eval a r - sql_eval b r"

text \<open>
  The sort key of a row under an ordering: one integer per term, negated for a descending
  term; keys are compared lexicographically.  Rows with equal keys keep their table order
  (SQL leaves their order open).
\<close>

fun term_key :: "order_term \<Rightarrow> viewtracker \<Rightarrow> int" where
  "term_key (Asc f) r = field_val f r"
| "term_key (Desc f) r = - field_val f r"

definition order_key :: "order_term list \<Rightarrow> viewtracker \<Rightarrow> int list" where
  "order_key ts r = map (\<lambda>t. term_key t r) ts"

text \<open>Running a query on the table: filter, sort, truncate.\<close>

definition fetch :: "queryset \<Rightarrow> table \<Rightarrow> viewtracker list" where
  "fetch q t =
     (let rs = sort_key (order_key (qs_order q)) (filter (matches (qs_where q)) t)
      in case qs_limit q of None \<Rightarrow> rs | Some n \<Rightarrow> take n rs)"

text \<open>The same, each row together with its extra columns.\<close>

definition fetch_extra :: "queryset \<Rightarrow> table \<Rightarrow> (viewtracker \<times> (string \<times> int) list) list" where
  "fetch_extra q t =
     map (\<lambda>r. (r, map (\<lambda>(name, e). (name, sql_eval e r)) (qs_extra q))) (fetch q t)"

text \<open>
  \<^verbatim>\<open>class Meta: ordering = ['views', '-last_view', 'first_view']\<close>: the ordering of every
  query that does not ask for another one.
\<close>

definition meta_ordering :: "order_term list" where
  "meta_ordering = [Asc Views, Desc LastView, Asc FirstView]"

text \<open>The manager itself (\<^verbatim>\<open>self\<close> in \<^verbatim>\<open>ViewTrackerManager\<close>): every row, default order.\<close>

definition objects :: queryset where
  "objects = \<lparr>qs_where = Everything, qs_order = meta_ordering, qs_limit = None, qs_extra = []\<rparr>"

text \<open>
  Modelled from the spec: the query-building methods of Django's \<^verbatim>\<open>QuerySet\<close> that the
  manager calls (\<^verbatim>\<open>none\<close>, \<^verbatim>\<open>filter\<close>, \<^verbatim>\<open>|\<close>, \<^verbatim>\<open>order_by\<close>, \<^verbatim>\<open>extra\<close>) are
  library code outside the source file.  \<^verbatim>\<open>filter\<close> on the manager sets the condition,
  \<^verbatim>\<open>|\<close> is the logical OR of two conditions, \<^verbatim>\<open>order_by\<close> replaces the ordering
  and \<^verbatim>\<open>extra\<close> adds computed columns.
\<close>

definition none_qs :: "queryset \<Rightarrow> queryset" where
  "none_qs q = q\<lparr>qs_where := Nothing\<rparr>"

definition filter_qs :: "cond \<Rightarrow> queryset \<Rightarrow> queryset" where
  "filter_qs c q = q\<lparr>qs_where := c\<rparr>"

definition or_qs :: "queryset \<Rightarrow> queryset \<Rightarrow> queryset" where
  "or_qs q q' = q\<lparr>qs_where := Or (qs_where q) (qs_where q')\<rparr>"

definition order_by :: "order_term list \<Rightarrow> queryset \<Rightarrow> queryset" where
  "order_by ts q = q\<lparr>qs_order := ts\<rparr>"

text \<open>
  Django's \<^verbatim>\<open>QuerySet\<close> has no attribute \<^verbatim>\<open>limit\<close>: a queryset is truncated by
  slicing it.  Looking the attribute up in \<^verbatim>\<open>qs.limit(n)\<close> raises
  \<^verbatim>\<open>AttributeError\<close>, whatever the queryset and the argument are.
\<close>

definition limit_qs :: "nat \<Rightarrow> queryset \<Rightarrow> error + queryset" where
  "limit_qs n q = Inl AttributeError"

definition extra :: "(string \<times> sql_expr) list \<Rightarrow> queryset \<Rightarrow> queryset" where
  "extra sel q = q\<lparr>qs_extra := qs_extra q @ sel\<rparr>"

subsection \<open>\<^verbatim>\<open>ViewTrackerManager\<close>\<close>

text \<open>
  \<^verbatim>\<open>select_age\<close>: \<^verbatim>\<open>now\<close> is what \<^verbatim>\<open>datetime.now()\<close> returns during the call; a
  \<^verbatim>\<open>datetime\<close> is never false, so only \<^verbatim>\<open>None\<close> takes the default.  The select string
  is \<^verbatim>\<open>"first_view - '%s'" % refdate\<close>.
\<close>

definition select_age :: "timestamp \<Rightarrow> timestamp option \<Rightarrow> queryset" where
  "select_age now refdate =
     (let refdate' = (case refdate of None \<Rightarrow> now | Some d \<Rightarrow> d);
          select_string = Minus (Col FirstView) (Lit refdate')
      in extra [(''age'', select_string)] objects)"

definition get_recently_viewed :: "nat \<Rightarrow> error + queryset" where
  "get_recently_viewed limit = limit_qs limit (order_by [Desc LastView] objects)"

text \<open>The loop of \<^verbatim>\<open>get_for_models\<close>, appending one content type per model.\<close>

fun collect_cts :: "content_type list \<Rightarrow> model list \<Rightarrow> content_type list" where
  "collect_cts cts [] = cts"
| "collect_cts cts (m # ms) = collect_cts (cts @ [ct_get_for_model m]) ms"

definition get_for_models :: "model list \<Rightarrow> queryset" where
  "get_for_models models = filter_qs (ContentTypeIn (collect_cts [] models)) objects"

definition get_for_model :: "model \<Rightarrow> queryset" where
  "get_for_model m = get_for_models [m]"

text \<open>The loop of \<^verbatim>\<open>get_for_objects\<close>, OR-ing one filter per object onto \<^verbatim>\<open>qs\<close>.\<close>

fun or_objects :: "queryset \<Rightarrow> content_object list \<Rightarrow> queryset" where
  "or_objects qs [] = qs"
| "or_objects qs (obj # objs) =
     (let ct = ct_get_for_model (cls obj)
      in or_objects (or_qs qs (filter_qs (ObjectIs ct (pk obj)) objects)) objs)"

definition get_for_objects :: "content_object list \<Rightarrow> queryset" where
  "get_for_objects objs = or_objects (none_qs objects) objs"

section \<open>Reading and writing single records\<close>

text \<open>
  Modelled from the spec: \<^verbatim>\<open>get\<close>, \<^verbatim>\<open>get_or_create\<close> and \<^verbatim>\<open>save\<close> are Django
  library code.  \<^verbatim>\<open>get\<close> is read-only and needs exactly one matching row.
  \<^verbatim>\<open>get_or_create\<close> returns the existing record or creates one with \<^verbatim>\<open>views = 0\<close> and
  both timestamps \<^verbatim>\<open>now\<close>.  \<^verbatim>\<open>save\<close> writes every field of the instance to the row
  with its \<^verbatim>\<open>id\<close> (inserting the row when there is none), with \<^verbatim>\<open>last_view\<close> set to
  \<^verbatim>\<open>now\<close> (\<^verbatim>\<open>auto_now\<close>) and, on insertion, \<^verbatim>\<open>first_view\<close> too (\<^verbatim>\<open>auto_now_add\<close>);
  the storage layer refuses a write that would break \<^verbatim>\<open>unique_together\<close>.
\<close>

definition get :: "content_type \<Rightarrow> nat \<Rightarrow> table \<Rightarrow> error + viewtracker" where
  "get ct oid t =
     (case filter (matches (ObjectIs ct oid)) t of
        [] \<Rightarrow> Inl DoesNotExist
      | [r] \<Rightarrow> Inr r
      | _ \<Rightarrow> Inl MultipleObjectsReturned)"

definition fresh_id :: "table \<Rightarrow> nat" where
  "fresh_id t = Suc (foldr max (map row_id t) 0)"

definition save :: "timestamp \<Rightarrow> viewtracker \<Rightarrow> table \<Rightarrow> (error + viewtracker) \<times> table" where
  "save now self t =
     (if filter (\<lambda>x. row_id x \<noteq> row_id self \<and> ref_of x = ref_of self) t \<noteq> []
      then (Inl IntegrityError, t)
      else if filter (\<lambda>x. row_id x = row_id self) t \<noteq> []
      then (let r = self\<lparr>last_view := now\<rparr>
            in (Inr r, map (\<lambda>x. if row_id x = row_id self then r else x) t))
      else (let r = self\<lparr>first_view := now, last_view := now\<rparr>
            in (Inr r, t @ [r])))"

definition get_or_create ::
  "timestamp \<Rightarrow> content_type \<Rightarrow> nat \<Rightarrow> table \<Rightarrow> (error + viewtracker) \<times> table" where
  "get_or_create now ct oid t =
     (case get ct oid t of
        Inr r \<Rightarrow> (Inr r, t)
      | Inl DoesNotExist \<Rightarrow>
          save now \<lparr>row_id = fresh_id t, content_type = ct, object_id = oid,
                    first_view = now, last_view = now, views = 0\<rparr> t
      | Inl e \<Rightarrow> (Inl e, t))"

definition get_for_object ::
  "timestamp \<Rightarrow> content_object \<Rightarrow> bool \<Rightarrow> table \<Rightarrow> (error + viewtracker) \<times> table" where
  "get_for_object now content_obj create t =
     (let ct = ct_get_for_model (cls content_obj)
      in if create then get_or_create now ct (pk content_obj) t
         else (get ct (pk content_obj) t, t))"

subsection \<open>\<^verbatim>\<open>ViewTracker\<close>\<close>

definition increment :: "timestamp \<Rightarrow> viewtracker \<Rightarrow> table \<Rightarrow> (error + viewtracker) \<times> table" where
  "increment now self t = save now (self\<lparr>views := views self + 1\<rparr>) t"

definition get_age :: "timestamp \<Rightarrow> viewtracker \<Rightarrow> timestamp option \<Rightarrow> error + duration" where
  "get_age now self refdate =
     (let refdate' = (case refdate of None \<Rightarrow> now | Some d \<Rightarrow> d)
      in if refdate' \<ge> first_view self then Inr (refdate' - first_view self)
         else Inl AssertionError)"

text \<open>
  \<^verbatim>\<open>add_view_for\<close>: \<^verbatim>\<open>now\<close> is the clock when the record is looked up (and created),
  \<^verbatim>\<open>now'\<close> the clock when the incremented record is saved.
\<close>

definition add_view_for ::
  "timestamp \<Rightarrow> timestamp \<Rightarrow> content_object \<Rightarrow> table \<Rightarrow> (error + viewtracker) \<times> table" where
  "add_view_for now now' content_obj t =
     (case get_for_object now content_obj True t of
        (Inl e, t') \<Rightarrow> (Inl e, t')
      | (Inr viewtracker, t') \<Rightarrow> increment now' viewtracker t')"

definition get_views_for ::
  "timestamp \<Rightarrow> content_object \<Rightarrow> table \<Rightarrow> (error + nat) \<times> table" where
  "get_views_for now content_obj t =
     (case get_for_object now content_obj False t of
        (Inl DoesNotExist, t') \<Rightarrow> (Inr 0, t')
      | (Inl e, t') \<Rightarrow> (Inl e, t')
      | (Inr viewtracker, t') \<Rightarrow> (Inr (views viewtracker), t'))"

section \<open>Sequences of calls and overlapping requests\<close>

text \<open>
  \<^verbatim>\<open>add_view_for\<close> called once for every pair of clock readings in the list, one call
  after the other, on the same object; the first error ends the run.
\<close>

fun add_view_for_times :: "(timestamp \<times> timestamp) list \<Rightarrow> content_object \<Rightarrow> table \<Rightarrow> error + table" where
  "add_view_for_times [] obj t = Inr t"
| "add_view_for_times ((now, now') # ns) obj t =
     (case add_view_for now now' obj t of
        (Inl e, t') \<Rightarrow> Inl e
      | (Inr viewtracker, t') \<Rightarrow> add_view_for_times ns obj t')"

text \<open>
  Requests that run at the same time.  \<^verbatim>\<open>add_view_for\<close> touches the table twice: its
  first statement loads (or creates) the record into a Python instance, its second
  statement, \<^verbatim>\<open>increment\<close>, adds one to the instance's count and saves the instance.
  Each of the two statements is taken as one indivisible step on the table; between them
  the instance is private to the request, and another request may run.  A schedule lists
  which request takes its next step, and the clock at that step.
\<close>

datatype request =
    Pending content_object
  | Loaded viewtracker
  | Finished viewtracker
  | Failed error

definition step_request :: "timestamp \<Rightarrow> request \<Rightarrow> table \<Rightarrow> request \<times> table" where
  "step_request now rq t =
     (case rq of
        Pending obj \<Rightarrow>
          (case get_for_object now obj True t of
             (Inl e, t') \<Rightarrow> (Failed e, t')
           | (Inr viewtracker, t') \<Rightarrow> (Loaded viewtracker, t'))
      | Loaded viewtracker \<Rightarrow>
          (case increment now viewtracker t of
             (Inl e, t') \<Rightarrow> (Failed e, t')
           | (Inr viewtracker', t') \<Rightarrow> (Finished viewtracker', t'))
      | _ \<Rightarrow> (rq, t))"

fun run_schedule :: "(nat \<times> timestamp) list \<Rightarrow> request list \<Rightarrow> table \<Rightarrow> request list \<times> table" where
  "run_schedule [] rqs t = (rqs, t)"
| "run_schedule ((i, now) # sch) rqs t =
     (if i < length rqs
      then (case step_request now (rqs ! i) t of (rq', t') \<Rightarrow> run_schedule sch (rqs[i := rq']) t')
      else run_schedule sch rqs t)"

fun serial_schedule :: "nat \<Rightarrow> (timestamp \<times> timestamp) list \<Rightarrow> (nat \<times> timestamp) list" where
  "serial_schedule i [] = []"
| "serial_schedule i ((now, now') # ns) = (i, now) # (i, now') # serial_schedule (Suc i) ns"

section \<open>Notions used in the properties\<close>

text \<open>Both key columns of a well-formed table are free of duplicates.\<close>

definition wf_table :: "table \<Rightarrow> bool" where
  "wf_table t \<longleftrightarrow> distinct (map row_id t) \<and> distinct (map ref_of t)"

text \<open>The tables the operations can produce, starting from the empty table.\<close>

inductive reachable :: "table \<Rightarrow> bool" where
  empty: "reachable []"
| get_for_object: "reachable t \<Longrightarrow> reachable (snd (get_for_object now obj create t))"
| increment: "reachable t \<Longrightarrow> reachable (snd (increment now vt t))"
| add_view_for: "reachable t \<Longrightarrow> reachable (snd (add_view_for now now' obj t))"
| get_views_for: "reachable t \<Longrightarrow> reachable (snd (get_views_for now obj t))"

text \<open>
  The specification's \<^verbatim>\<open>get_for_type\<close>: all records whose type matches.
\<close>

definition get_for_type_spec :: "content_type \<Rightarrow> table \<Rightarrow> viewtracker set" where
  "get_for_type_spec ct t = set (filter (\<lambda>r. content_type r = ct) t)"

text \<open>
  The specification's default order: ascending by views, then descending by last view,
  then ascending by first view.
\<close>

definition popularity_le :: "viewtracker \<Rightarrow> viewtracker \<Rightarrow> bool" where
  "popularity_le a b \<longleftrightarrow>
     views a < views b \<or>
     (views a = views b \<and>
        (last_view b < last_view a \<or>
         (last_view a = last_view b \<and> first_view a \<le> first_view b)))"

text \<open>Sample data: two blog entries and a page, and records for them.\<close>

abbreviation (input) entry7 :: content_object where
  "entry7 \<equiv> \<lparr>cls = Model ''blog'' ''entry'', pk = 7\<rparr>"

abbreviation (input) entry8 :: content_object where
  "entry8 \<equiv> \<lparr>cls = Model ''blog'' ''entry'', pk = 8\<rparr>"

abbreviation (input) page1 :: content_object where
  "page1 \<equiv> \<lparr>cls = Model ''site'' ''page'', pk = 1\<rparr>"

abbreviation (input) rec_a :: viewtracker where
  "rec_a \<equiv> \<lparr>row_id = 1, content_type = ContentType ''blog'' ''entry'', object_id = 7,
            first_view = 10, last_view = 20, views = 5\<rparr>"

abbreviation (input) rec_b :: viewtracker where
  "rec_b \<equiv> \<lparr>row_id = 2, content_type = ContentType ''blog'' ''entry'', object_id = 8,
            first_view = 10, last_view = 15, views = 5\<rparr>"

abbreviation (input) rec_c :: viewtracker where
  "rec_c \<equiv> \<lparr>row_id = 3, content_type = ContentType ''site'' ''page'', object_id = 1,
            first_view = 10, last_view = 30, views = 3\<rparr>"

section \<open>Queries over many records\<close>

lemma collect_cts_map: "collect_cts cts ms = cts @ map ct_get_for_model ms"
  by (induction ms arbitrary: cts) auto

lemma mset_fetch_unlimited:
  "qs_limit q = None \<Longrightarrow> mset (fetch q t) = mset (filter (matches (qs_where q)) t)"
  by (simp add: fetch_def)

lemma or_objects_order: "qs_order (or_objects q objs) = qs_order q"
  by (induction objs arbitrary: q) (auto simp: or_qs_def Let_def)

lemma or_objects_limit: "qs_limit (or_objects q objs) = qs_limit q"
  by (induction objs arbitrary: q) (auto simp: or_qs_def Let_def)

lemma or_objects_matches:
  "matches (qs_where (or_objects q objs)) r \<longleftrightarrow>
     matches (qs_where q) r \<or> ref_of r \<in> set (map resolve objs)"
  by (induction objs arbitrary: q)
     (auto simp: or_qs_def filter_qs_def Let_def ref_of_def resolve_def)

lemma sort_key_unique:
  assumes "mset xs = mset ys" "sorted (map f ys)" "distinct (map f ys)"
  shows "sort_key f xs = ys"
  by (metis assms(1,2,3) distinct_map mset_eq_setD sort_key_inj_key_eq)

lemma meta_key_le:
  "order_key meta_ordering a \<le> order_key meta_ordering b \<longleftrightarrow> popularity_le a b"
  by (auto simp: order_key_def meta_ordering_def popularity_le_def)

lemma sorted_wrt_sort_key_le:
  "sorted_wrt (\<lambda>a b. f a \<le> f b) (sort_key f xs)"
  using sorted_sort_key[of f xs] by (simp add: sorted_map)

lemma sorted_wrt_take: "sorted_wrt P xs \<Longrightarrow> sorted_wrt P (take n xs)"
  by (metis append_take_drop_id sorted_wrt_append)

lemma fetch_meta_sorted:
  assumes "qs_order q = meta_ordering"
  shows "sorted_wrt popularity_le (fetch q t)"
proof -
  let ?rs = "sort_key (order_key meta_ordering) (filter (matches (qs_where q)) t)"
  have "sorted_wrt (\<lambda>a b. order_key meta_ordering a \<le> order_key meta_ordering b) ?rs"
    by (rule sorted_wrt_sort_key_le)
  then have s: "sorted_wrt popularity_le ?rs"
    by (simp add: meta_key_le)
  show ?thesis
    using s assms by (cases "qs_limit q") (simp_all add: fetch_def sorted_wrt_take)
qed

text \<open>
  C10: for every model and every table, the single-type query \<^verbatim>\<open>get_for_model\<close>
  returns the same records as the multi-type query \<^verbatim>\<open>get_for_models\<close> on the
  one-element list, namely all records whose content type is the model's.
\<close>

theorem get_for_model_is_singleton_get_for_models:
  "fetch (get_for_model m) t = fetch (get_for_models [m]) t \<and>
   set (fetch (get_for_model m) t) = set (fetch (get_for_models [m]) t) \<and>
   set (fetch (get_for_model m) t) = get_for_type_spec (ct_get_for_model m) t"
  by (simp add: get_for_model_def get_for_models_def fetch_def filter_qs_def objects_def
      get_for_type_spec_def)

text \<open>
  C8: for every table, \<^verbatim>\<open>get_for_objects\<close> on the empty sequence returns no record at
  all; on any sequence it returns exactly the records whose reference is one of the given
  ones, each as often as the table holds it, however often a reference is given; so the
  result of a table without duplicates has none.
\<close>

theorem get_for_objects_exact:
  "fetch (get_for_objects []) t = [] \<and>
   mset (fetch (get_for_objects objs) t) =
     mset (filter (\<lambda>r. ref_of r \<in> set (map resolve objs)) t) \<and>
   (distinct t \<longrightarrow> distinct (fetch (get_for_objects objs) t))"
proof -
  have lim: "qs_limit (get_for_objects objs) = None" for objs
    by (simp add: get_for_objects_def or_objects_limit none_qs_def objects_def)
  have m: "matches (qs_where (get_for_objects objs)) r \<longleftrightarrow> ref_of r \<in> set (map resolve objs)"
    for r
    by (simp add: get_for_objects_def or_objects_matches none_qs_def)
  have e: "fetch (get_for_objects []) t = []"
    by (simp add: get_for_objects_def fetch_def none_qs_def objects_def)
  have ms: "mset (fetch (get_for_objects objs) t) =
     mset (filter (\<lambda>r. ref_of r \<in> set (map resolve objs)) t)"
    using mset_fetch_unlimited[OF lim, of objs t] m by (simp cong: filter_cong)
  have d: "distinct (fetch (get_for_objects objs) t)" if "distinct t"
  proof -
    have "distinct (filter (\<lambda>r. ref_of r \<in> set (map resolve objs)) t)"
      using that by simp
    then show ?thesis
      using ms by (metis distinct_count_atmost_1 set_mset_mset count_mset_0_iff) 
  qed
  show ?thesis using e ms d by blast
qed

theorem get_for_objects_exact_witness:
  "distinct [rec_a, rec_b, rec_c] \<and>
   fetch (get_for_objects []) [rec_a, rec_b, rec_c] = [] \<and>
   mset (fetch (get_for_objects [entry7, page1, entry7]) [rec_a, rec_b, rec_c]) =
     {#rec_a, rec_c#} \<and>
   distinct (fetch (get_for_objects [entry7, page1, entry7]) [rec_a, rec_b, rec_c])"
proof -
  have d: "distinct [rec_a, rec_b, rec_c]"
    by simp
  have f: "filter (\<lambda>r. ref_of r \<in> set (map resolve [entry7, page1, entry7]))
             [rec_a, rec_b, rec_c] = [rec_a, rec_c]"
    by (simp add: ref_of_def resolve_def)
  have "mset (fetch (get_for_objects [entry7, page1, entry7]) [rec_a, rec_b, rec_c]) =
          mset [rec_a, rec_c]"
    using get_for_objects_exact [of "[rec_a, rec_b, rec_c]" "[entry7, page1, entry7]"]
    unfolding f by blast
  then have m: "mset (fetch (get_for_objects [entry7, page1, entry7]) [rec_a, rec_b, rec_c]) =
          {#rec_a, rec_c#}"
    by simp
  show ?thesis
    using d m get_for_objects_exact [of "[rec_a, rec_b, rec_c]" "[entry7, page1, entry7]"]
    by blast
qed

text \<open>
  C3 asks \<^verbatim>\<open>get_recently_viewed\<close> for the first \<^verbatim>\<open>limit\<close> records in descending
  order of last view.  The method orders the records and then calls \<^verbatim>\<open>limit\<close> on the
  queryset, which does not exist: with the limit 2, as with every other, the call raises
  \<^verbatim>\<open>AttributeError\<close> and returns no records.
\<close>

theorem get_recently_viewed_raises:
  "get_recently_viewed 2 = Inl AttributeError"
  by (simp add: get_recently_viewed_def limit_qs_def)

lemma get_recently_viewed_always_raises:
  "get_recently_viewed limit = Inl AttributeError"
  by (simp add: get_recently_viewed_def limit_qs_def)

text \<open>
  C7: every query over many records that asks for no order of its own (the manager itself,
  \<^verbatim>\<open>get_for_models\<close>, \<^verbatim>\<open>get_for_model\<close>, \<^verbatim>\<open>get_for_objects\<close>,
  \<^verbatim>\<open>select_age\<close>) returns its records ascending by views, then descending by last
  view, then ascending by first view; records A (5 views, last view \<open>t2\<close>), B (5 views,
  last view \<open>t1\<close>) and C (3 views, last view \<open>t3\<close>) with \<open>t1 < t2 < t3\<close>, stored in any
  order, come back as C, A, B.
\<close>

theorem default_ordering_by_popularity:
  "sorted_wrt popularity_le (fetch objects t) \<and>
   sorted_wrt popularity_le (fetch (get_for_models ms) t) \<and>
   sorted_wrt popularity_le (fetch (get_for_model m) t) \<and>
   sorted_wrt popularity_le (fetch (get_for_objects objs) t) \<and>
   sorted_wrt popularity_le (map fst (fetch_extra (select_age now refdate) t)) \<and>
   (mset t = {#a, b, c#} \<and> views a = 5 \<and> views b = 5 \<and> views c = 3 \<and>
    last_view b < last_view a \<and> last_view a < last_view c
      \<longrightarrow> fetch objects t = [c, a, b])"
proof -
  have o: "qs_order objects = meta_ordering"
    by (simp add: objects_def)
  have ms: "qs_order (get_for_models ms) = meta_ordering" for ms
    by (simp add: get_for_models_def filter_qs_def objects_def)
  have objs: "qs_order (get_for_objects objs) = meta_ordering"
    by (simp add: get_for_objects_def or_objects_order none_qs_def objects_def)
  have age: "qs_order (select_age now refdate) = meta_ordering"
    by (simp add: select_age_def extra_def objects_def)
  have fst_extra: "map fst (fetch_extra q t) = fetch q t" for q
    by (simp add: fetch_extra_def comp_def)
  have ex: "fetch objects t = [c, a, b]"
    if "mset t = {#a, b, c#}" "views a = 5" "views b = 5" "views c = 3"
       "last_view b < last_view a"
  proof -
    have "sort_key (order_key meta_ordering) t = [c, a, b]"
      using that by (intro sort_key_unique) (auto simp: order_key_def meta_ordering_def)
    then show ?thesis by (simp add: fetch_def objects_def)
  qed
  show ?thesis
    using fetch_meta_sorted[OF o] fetch_meta_sorted[OF ms] fetch_meta_sorted[OF objs]
      fetch_meta_sorted[OF age] ex
    by (simp add: get_for_model_def fst_extra)
qed

theorem default_ordering_by_popularity_witness:
  "mset [rec_a, rec_b, rec_c] = {#rec_a, rec_b, rec_c#} \<and>
   views rec_a = 5 \<and> views rec_b = 5 \<and> views rec_c = 3 \<and>
   last_view rec_b < last_view rec_a \<and> last_view rec_a < last_view rec_c \<and>
   fetch objects [rec_a, rec_b, rec_c] = [rec_c, rec_a, rec_b]"
proof -
  have h: "mset [rec_a, rec_b, rec_c] = {#rec_a, rec_b, rec_c#} \<and>
      views rec_a = 5 \<and> views rec_b = 5 \<and> views rec_c = 3 \<and>
      last_view rec_b < last_view rec_a \<and> last_view rec_a < last_view rec_c"
    by simp
  show ?thesis
    using h default_ordering_by_popularity
      [of "[rec_a, rec_b, rec_c]" "[]" "Model ''blog'' ''entry''" "[]" 0 None
          rec_a rec_b rec_c]
    by blast
qed

text \<open>
  What \<^verbatim>\<open>select_age\<close> attaches to every record it returns: the record's first view
  minus the reference date.
\<close>

lemma select_age_annotation:
  "(r, cols) \<in> set (fetch_extra (select_age now refdate) t) \<Longrightarrow>
   cols = [(''age'', first_view r - (case refdate of None \<Rightarrow> now | Some d \<Rightarrow> d))]"
  by (auto simp: fetch_extra_def select_age_def extra_def objects_def)

text \<open>
  C2 asks for the age \<open>refdate - first_view\<close>, as \<^verbatim>\<open>get_age\<close> computes it.  For a
  record first viewed at 10 and the reference date 15, \<^verbatim>\<open>select_age\<close> attaches the age
  \<open>- 5\<close>, not 5: the operands of its select string are the other way round.
\<close>

theorem select_age_first_view_minus_refdate:
  "fetch_extra (select_age 0 (Some 15))
     [\<lparr>row_id = 1, content_type = ContentType ''blog'' ''entry'', object_id = 7,
       first_view = 10, last_view = 12, views = 3\<rparr>] =
     [(\<lparr>row_id = 1, content_type = ContentType ''blog'' ''entry'', object_id = 7,
        first_view = 10, last_view = 12, views = 3\<rparr>, [(''age'', - 5)])]"
  by (simp add: fetch_extra_def fetch_def select_age_def extra_def objects_def)

section \<open>Age of a record\<close>

text \<open>
  C5: for every record and every reference date that is not before the record's first view,
  \<^verbatim>\<open>get_age\<close> returns exactly the reference date minus the first view; for every
  reference date before the first view it fails with the assertion error and returns no
  duration.  The reference date is the caller's, or the clock when none is given.
\<close>

theorem get_age_exact_or_fails:
  "(first_view r \<le> d \<longrightarrow> get_age now r (Some d) = Inr (d - first_view r)) \<and>
   (d < first_view r \<longrightarrow> get_age now r (Some d) = Inl AssertionError) \<and>
   (first_view r \<le> now \<longrightarrow> get_age now r None = Inr (now - first_view r)) \<and>
   (now < first_view r \<longrightarrow> get_age now r None = Inl AssertionError)"
  by (simp add: get_age_def)

theorem get_age_exact_or_fails_witness:
  "get_age 0 \<lparr>row_id = 1, content_type = ContentType ''blog'' ''entry'', object_id = 7,
              first_view = 100, last_view = 250, views = 3\<rparr> (Some 160) = Inr 60 \<and>
   get_age 0 \<lparr>row_id = 1, content_type = ContentType ''blog'' ''entry'', object_id = 7,
              first_view = 100, last_view = 250, views = 3\<rparr> (Some 40) = Inl AssertionError"
  using get_age_exact_or_fails
    [of "\<lparr>row_id = 1, content_type = ContentType ''blog'' ''entry'', object_id = 7,
          first_view = 100, last_view = 250, views = 3\<rparr>" 160 0]
    get_age_exact_or_fails
    [of "\<lparr>row_id = 1, content_type = ContentType ''blog'' ''entry'', object_id = 7,
          first_view = 100, last_view = 250, views = 3\<rparr>" 40 0]
  by simp

section \<open>Single records: uniqueness and counting\<close>

lemma matches_ObjectIs: "matches (ObjectIs ct oid) = (\<lambda>r. ref_of r = (ct, oid))"
  by (auto simp: ref_of_def fun_eq_iff)

lemma filter_ref_distinct:
  "distinct (map ref_of t) \<Longrightarrow> r \<in> set t \<Longrightarrow> filter (\<lambda>x. ref_of x = ref_of r) t = [r]"
proof (induction t)
  case Nil
  then show ?case by simp
next
  case (Cons x xs)
  show ?case
  proof (cases "x = r")
    case True
    have "\<forall>y\<in>set xs. ref_of y \<noteq> ref_of r"
      using Cons.prems True by (fastforce simp: image_iff)
    then have "filter (\<lambda>x. ref_of x = ref_of r) xs = []"
      by (simp add: filter_empty_conv)
    then show ?thesis using True by simp
  next
    case False
    then have "r \<in> set xs" using Cons.prems by simp
    moreover have "ref_of x \<noteq> ref_of r"
      using Cons.prems \<open>r \<in> set xs\<close> by auto
    ultimately show ?thesis using Cons by simp
  qed
qed

lemma get_absent:
  "\<forall>r\<in>set t. ref_of r \<noteq> (ct, oid) \<Longrightarrow> get ct oid t = Inl DoesNotExist"
  by (simp add: get_def matches_ObjectIs filter_empty_conv del: matches.simps)

lemma get_present:
  "distinct (map ref_of t) \<Longrightarrow> r \<in> set t \<Longrightarrow> ref_of r = (ct, oid) \<Longrightarrow> get ct oid t = Inr r"
  using filter_ref_distinct[of t r]
  by (simp add: get_def matches_ObjectIs del: matches.simps)

lemma fresh_id_gt: "r \<in> set t \<Longrightarrow> row_id r < fresh_id t"
  by (induction t) (auto simp: fresh_id_def)

lemma distinct_map_replace:
  assumes "distinct (map g t)" "distinct (map h t)" "\<forall>x\<in>set t. g x \<noteq> a \<longrightarrow> h x \<noteq> h r"
  shows "distinct (map h (map (\<lambda>x. if g x = a then r else x) t))"
  using assms
proof (induction t)
  case Nil
  then show ?case by simp
next
  case (Cons x xs)
  show ?case
  proof (cases "g x = a")
    case True
    then have "\<forall>y\<in>set xs. g y \<noteq> a" using Cons.prems(1) by (fastforce simp: image_iff)
    then have same: "map (\<lambda>x. if g x = a then r else x) xs = xs"
      by (simp add: map_idI)
    have "h r \<notin> h ` set xs"
      using Cons.prems(3) \<open>\<forall>y\<in>set xs. g y \<noteq> a\<close> by auto
    then show ?thesis using True same Cons.prems(2) by simp
  next
    case False
    have ih: "distinct (map h (map (\<lambda>x. if g x = a then r else x) xs))"
      using Cons by simp
    have "h x \<noteq> h r" using False Cons.prems(3) by simp
    moreover have "h x \<notin> h ` set xs" using Cons.prems(2) by simp
    ultimately have "\<forall>y\<in>set xs. h x \<noteq> h (if g y = a then r else y)"
      by auto
    then have "h x \<notin> set (map h (map (\<lambda>x. if g x = a then r else x) xs))"
      by (auto simp: image_iff)
    then show ?thesis using False ih by simp
  qed
qed

lemma wf_save: 
  assumes "wf_table t" 
  shows "wf_table (snd (save now self t))"
proof -
  let ?clash = "filter (\<lambda>x. row_id x \<noteq> row_id self \<and> ref_of x = ref_of self) t"
  let ?same = "filter (\<lambda>x. row_id x = row_id self) t"
  consider (err) "?clash \<noteq> []" | (upd) "?clash = []" "?same \<noteq> []"
    | (ins) "?clash = []" "?same = []" by blast
  then show ?thesis
  proof cases
    case err
    then show ?thesis using assms by (simp add: save_def)
  next
    case upd
    let ?r = "self\<lparr>last_view := now\<rparr>"
    have t': "snd (save now self t) = map (\<lambda>x. if row_id x = row_id self then ?r else x) t"
      using upd by (simp add: save_def Let_def)
    have ids: "map row_id (map (\<lambda>x. if row_id x = row_id self then ?r else x) t) = map row_id t"
      by simp
    have "\<forall>x\<in>set t. row_id x \<noteq> row_id self \<longrightarrow> ref_of x \<noteq> ref_of ?r"
      using upd(1) by (auto simp: filter_empty_conv ref_of_def)
    then have "distinct (map ref_of (map (\<lambda>x. if row_id x = row_id self then ?r else x) t))"
      using assms by (intro distinct_map_replace) (auto simp: wf_table_def)
    then show ?thesis
      using assms ids unfolding t' wf_table_def by metis
  next
    case ins
    let ?r = "self\<lparr>first_view := now, last_view := now\<rparr>"
    have t': "snd (save now self t) = t @ [?r]"
      using ins by (simp add: save_def Let_def)
    have "\<forall>x\<in>set t. row_id x \<noteq> row_id self"
      using ins(2) by (simp add: filter_empty_conv)
    moreover from this have "\<forall>x\<in>set t. ref_of x \<noteq> ref_of self"
      using ins(1) by (auto simp: filter_empty_conv)
    ultimately show ?thesis
      using assms unfolding t' wf_table_def by (auto simp: ref_of_def)
  qed
qed


lemma save_insert:
  assumes "\<forall>x\<in>set t. ref_of x \<noteq> ref_of self" "\<forall>x\<in>set t. row_id x \<noteq> row_id self"
  shows "save now self t =
    (Inr (self\<lparr>first_view := now, last_view := now\<rparr>),
     t @ [self\<lparr>first_view := now, last_view := now\<rparr>])"
proof -
  have "filter (\<lambda>x. row_id x \<noteq> row_id self \<and> ref_of x = ref_of self) t = []"
    using assms(1) by (simp add: filter_empty_conv)
  moreover have "filter (\<lambda>x. row_id x = row_id self) t = []"
    using assms(2) by (simp add: filter_empty_conv)
  ultimately show ?thesis by (simp add: save_def Let_def)
qed

lemma save_update:
  assumes "\<forall>x\<in>set t. ref_of x = ref_of self \<longrightarrow> row_id x = row_id self"
    "\<exists>x\<in>set t. row_id x = row_id self"
  shows "save now self t =
    (Inr (self\<lparr>last_view := now\<rparr>),
     map (\<lambda>x. if row_id x = row_id self then self\<lparr>last_view := now\<rparr> else x) t)"
proof -
  have "filter (\<lambda>x. row_id x \<noteq> row_id self \<and> ref_of x = ref_of self) t = []"
    using assms(1) by (auto simp: filter_empty_conv)
  moreover have "filter (\<lambda>x. row_id x = row_id self) t \<noteq> []"
    using assms(2) by (simp add: filter_empty_conv)
  ultimately show ?thesis by (simp add: save_def Let_def)
qed

lemma get_or_create_present:
  "distinct (map ref_of t) \<Longrightarrow> r \<in> set t \<Longrightarrow> ref_of r = (ct, oid) \<Longrightarrow>
   get_or_create now ct oid t = (Inr r, t)"
  by (simp add: get_or_create_def get_present)

lemma get_or_create_absent:
  assumes "\<forall>r\<in>set t. ref_of r \<noteq> (ct, oid)"
  shows "get_or_create now ct oid t =
    (Inr \<lparr>row_id = fresh_id t, content_type = ct, object_id = oid,
          first_view = now, last_view = now, views = 0\<rparr>,
     t @ [\<lparr>row_id = fresh_id t, content_type = ct, object_id = oid,
           first_view = now, last_view = now, views = 0\<rparr>])"
proof -
  let ?new = "\<lparr>row_id = fresh_id t, content_type = ct, object_id = oid,
               first_view = now, last_view = now, views = 0\<rparr>"
  have "\<forall>x\<in>set t. ref_of x \<noteq> ref_of ?new"
    using assms by (simp add: ref_of_def)
  moreover have "\<forall>x\<in>set t. row_id x \<noteq> row_id ?new"
    using fresh_id_gt[of _ t] by fastforce
  ultimately have "save now ?new t = (Inr ?new, t @ [?new])"
    using save_insert[of t ?new now] by simp
  then show ?thesis
    using get_absent[OF assms] by (simp add: get_or_create_def)
qed

lemma wf_get_or_create:
  assumes "wf_table t"
  shows "wf_table (snd (get_or_create now ct oid t))"
proof (cases "get ct oid t")
  case (Inl e)
  then show ?thesis
    using assms wf_save[OF assms] by (cases e) (simp_all add: get_or_create_def)
next
  case (Inr r)
  then show ?thesis using assms by (simp add: get_or_create_def)
qed

lemma wf_get_for_object: "wf_table t \<Longrightarrow> wf_table (snd (get_for_object now obj create t))"
  by (simp add: get_for_object_def Let_def wf_get_or_create)

lemma wf_increment: "wf_table t \<Longrightarrow> wf_table (snd (increment now vt t))"
  by (simp add: increment_def wf_save)

lemma wf_add_view_for:
  assumes "wf_table t"
  shows "wf_table (snd (add_view_for now now' obj t))"
proof (cases "get_for_object now obj True t")
  case (Pair res t')
  then have wf': "wf_table t'"
    using wf_get_for_object[OF assms, of now obj True] by simp
  show ?thesis
  proof (cases res)
    case (Inl e)
    then show ?thesis using Pair wf' by (simp add: add_view_for_def)
  next
    case (Inr vt)
    then show ?thesis
      using Pair wf_increment[OF wf', of now' vt] by (simp add: add_view_for_def)
  qed
qed

lemma get_views_for_unchanged: "snd (get_views_for now obj t) = t"
  by (simp add: get_views_for_def get_for_object_def Let_def split: sum.splits error.splits)

lemma reachable_wf: "reachable t \<Longrightarrow> wf_table t"
proof (induction rule: reachable.induct)
  case empty
  then show ?case by (simp add: wf_table_def)
next
  case (get_for_object t now obj create)
  then show ?case by (simp add: wf_get_for_object)
next
  case (increment t now vt)
  then show ?case by (simp add: wf_increment)
next
  case (add_view_for t now now' obj)
  then show ?case by (simp add: wf_add_view_for)
next
  case (get_views_for t now obj)
  then show ?case by (simp add: get_views_for_unchanged)
qed

lemma get_or_create_twice:
  assumes "distinct (map ref_of t)"
  shows "\<exists>r t'. get_or_create now ct oid t = (Inr r, t') \<and>
           get_or_create now' ct oid t' = (Inr r, t') \<and>
           filter (\<lambda>x. ref_of x = (ct, oid)) t' = [r]"
proof (cases "\<exists>r\<in>set t. ref_of r = (ct, oid)")
  case True
  then obtain r where r: "r \<in> set t" "ref_of r = (ct, oid)" by blast
  have "get_or_create now ct oid t = (Inr r, t)"
    using assms r by (rule get_or_create_present)
  moreover have "get_or_create now' ct oid t = (Inr r, t)"
    using assms r by (rule get_or_create_present)
  moreover have "filter (\<lambda>x. ref_of x = (ct, oid)) t = [r]"
    using filter_ref_distinct[OF assms r(1)] r(2) by simp
  ultimately show ?thesis by blast
next
  case False
  let ?new = "\<lparr>row_id = fresh_id t, content_type = ct, object_id = oid,
               first_view = now, last_view = now, views = 0\<rparr>"
  have absent: "\<forall>r\<in>set t. ref_of r \<noteq> (ct, oid)" using False by blast
  have first: "get_or_create now ct oid t = (Inr ?new, t @ [?new])"
    using absent by (rule get_or_create_absent)
  have d: "distinct (map ref_of (t @ [?new]))"
    using assms absent by (auto simp: ref_of_def)
  have second: "get_or_create now' ct oid (t @ [?new]) = (Inr ?new, t @ [?new])"
    using d by (rule get_or_create_present) (simp_all add: ref_of_def)
  have "filter (\<lambda>x. ref_of x = (ct, oid)) (t @ [?new]) = [?new]"
    using filter_ref_distinct[OF d, of ?new] by (simp add: ref_of_def)
  then show ?thesis using first second by blast
qed

text \<open>
  C9: in every table the operations can produce, no two records have the same content
  type and object id; and \<^verbatim>\<open>get_for_object\<close> with \<^verbatim>\<open>create=True\<close>, called twice for
  the same object, succeeds, returns the same record both times and leaves exactly one
  record for the object, the second call changing nothing.
\<close>

theorem one_record_per_ref:
  assumes "reachable t"
  shows "distinct (map ref_of t) \<and>
         (\<exists>r t'. get_for_object now obj True t = (Inr r, t') \<and>
            get_for_object now' obj True t' = (Inr r, t') \<and>
            filter (\<lambda>x. ref_of x = resolve obj) t' = [r])"
proof -
  have d: "distinct (map ref_of t)"
    using reachable_wf[OF assms] by (simp add: wf_table_def)
  show ?thesis
    using d get_or_create_twice[OF d, of now "ct_get_for_model (cls obj)" "pk obj" now']
    by (simp add: get_for_object_def Let_def resolve_def)
qed

theorem one_record_per_ref_witness:
  "reachable (snd (add_view_for 1 2 entry7 (snd (add_view_for 3 4 entry8 [])))) \<and>
   distinct (map ref_of (snd (add_view_for 1 2 entry7 (snd (add_view_for 3 4 entry8 []))))) \<and>
   (\<exists>r t'. get_for_object 5 entry7 True
              (snd (add_view_for 1 2 entry7 (snd (add_view_for 3 4 entry8 [])))) = (Inr r, t') \<and>
      get_for_object 6 entry7 True t' = (Inr r, t') \<and>
      filter (\<lambda>x. ref_of x = resolve entry7) t' = [r])"
proof -
  have r: "reachable (snd (add_view_for 1 2 entry7 (snd (add_view_for 3 4 entry8 []))))"
    by (intro reachable.add_view_for reachable.empty)
  show ?thesis
    using r one_record_per_ref [OF r, of 5 entry7 6] by blast
qed

text \<open>
  C4: \<^verbatim>\<open>get_views_for\<close> returns 0, not an error, when the object has no record;
  on a table with at most one record per reference it returns the views of the object's
  record when there is one; and the table after the call is always the table before it,
  so no record is created.
\<close>

theorem get_views_for_zero_or_views:
  "((\<forall>r\<in>set t. ref_of r \<noteq> resolve obj) \<longrightarrow> get_views_for now obj t = (Inr 0, t)) \<and>
   (distinct (map ref_of t) \<longrightarrow>
      (\<forall>r\<in>set t. ref_of r = resolve obj \<longrightarrow>
         get_views_for now obj t = (Inr (views r), t))) \<and>
   snd (get_views_for now obj t) = t"
proof -
  have a: "get_views_for now obj t = (Inr 0, t)" if "\<forall>r\<in>set t. ref_of r \<noteq> resolve obj"
    using get_absent[of t "ct_get_for_model (cls obj)" "pk obj"] that
    by (simp add: get_views_for_def get_for_object_def Let_def resolve_def)
  have b: "get_views_for now obj t = (Inr (views r), t)"
    if "distinct (map ref_of t)" "r \<in> set t" "ref_of r = resolve obj" for r
    using get_present[OF that(1,2), of "ct_get_for_model (cls obj)" "pk obj"] that(3)
    by (simp add: get_views_for_def get_for_object_def Let_def resolve_def)
  show ?thesis using a b get_views_for_unchanged by blast
qed


theorem get_views_for_zero_or_views_witness:
  "distinct (map ref_of [rec_a, rec_c]) \<and>
   get_views_for 0 entry7 [rec_a, rec_c] = (Inr 5, [rec_a, rec_c]) \<and>
   get_views_for 0 entry8 [rec_a, rec_c] = (Inr 0, [rec_a, rec_c])"
proof -
  have d: "distinct (map ref_of [rec_a, rec_c])"
    by (simp add: ref_of_def)
  have present: "rec_a \<in> set [rec_a, rec_c] \<and> ref_of rec_a = resolve entry7"
    by (simp add: ref_of_def resolve_def)
  have absent: "\<forall>r\<in>set [rec_a, rec_c]. ref_of r \<noteq> resolve entry8"
    by (simp add: ref_of_def resolve_def)
  have "get_views_for 0 entry7 [rec_a, rec_c] = (Inr (views rec_a), [rec_a, rec_c])"
    using d present get_views_for_zero_or_views [of "[rec_a, rec_c]" entry7 0] by blast
  moreover have "get_views_for 0 entry8 [rec_a, rec_c] = (Inr 0, [rec_a, rec_c])"
    using absent get_views_for_zero_or_views [of "[rec_a, rec_c]" entry8 0] by blast
  ultimately show ?thesis using d by simp
qed

section \<open>Counting views\<close>

lemma get_append_single:
  assumes "\<forall>x\<in>set t. ref_of x \<noteq> (ct, oid)" "ref_of R = (ct, oid)"
  shows "get ct oid (t @ [R]) = Inr R"
proof -
  have "filter (\<lambda>x. ref_of x = (ct, oid)) t = []"
    using assms(1) by (simp add: filter_empty_conv)
  then show ?thesis
    using assms(2) by (simp add: get_def matches_ObjectIs del: matches.simps)
qed

lemma increment_append_single:
  assumes "\<forall>x\<in>set t. ref_of x \<noteq> ref_of R" "\<forall>x\<in>set t. row_id x \<noteq> row_id R"
  shows "increment now R (t @ [R]) =
     (Inr (R\<lparr>views := views R + 1, last_view := now\<rparr>),
      t @ [R\<lparr>views := views R + 1, last_view := now\<rparr>])"
proof -
  let ?self = "R\<lparr>views := views R + 1\<rparr>"
  have ref: "ref_of ?self = ref_of R" by (simp add: ref_of_def)
  have "\<forall>x\<in>set (t @ [R]). ref_of x = ref_of ?self \<longrightarrow> row_id x = row_id ?self"
    using assms(1) ref by auto
  moreover have "\<exists>x\<in>set (t @ [R]). row_id x = row_id ?self" by simp
  ultimately have "save now ?self (t @ [R]) =
     (Inr (?self\<lparr>last_view := now\<rparr>),
      map (\<lambda>x. if row_id x = row_id ?self then ?self\<lparr>last_view := now\<rparr> else x) (t @ [R]))"
    by (rule save_update)
  moreover have "map (\<lambda>x. if row_id x = row_id ?self then ?self\<lparr>last_view := now\<rparr> else x) t = t"
    using assms(2) by (simp add: map_idI)
  ultimately show ?thesis by (simp add: increment_def)
qed

lemma add_view_for_first:
  assumes "\<forall>x\<in>set t. ref_of x \<noteq> resolve obj"
  shows "add_view_for now now' obj t =
     (Inr \<lparr>row_id = fresh_id t, content_type = ct_get_for_model (cls obj), object_id = pk obj,
           first_view = now, last_view = now', views = 1\<rparr>,
      t @ [\<lparr>row_id = fresh_id t, content_type = ct_get_for_model (cls obj), object_id = pk obj,
            first_view = now, last_view = now', views = 1\<rparr>])"
proof -
  let ?new = "\<lparr>row_id = fresh_id t, content_type = ct_get_for_model (cls obj),
               object_id = pk obj, first_view = now, last_view = now, views = 0\<rparr>"
  have g: "get_for_object now obj True t = (Inr ?new, t @ [?new])"
    using get_or_create_absent[of t "ct_get_for_model (cls obj)" "pk obj" now] assms
    by (simp add: get_for_object_def Let_def resolve_def)
  have "\<forall>x\<in>set t. ref_of x \<noteq> ref_of ?new"
    using assms by (simp add: ref_of_def resolve_def)
  moreover have "\<forall>x\<in>set t. row_id x \<noteq> row_id ?new"
    using fresh_id_gt[of _ t] by fastforce
  ultimately have "increment now' ?new (t @ [?new]) =
     (Inr (?new\<lparr>views := views ?new + 1, last_view := now'\<rparr>),
      t @ [?new\<lparr>views := views ?new + 1, last_view := now'\<rparr>])"
    by (rule increment_append_single)
  then show ?thesis using g by (simp add: add_view_for_def)
qed

lemma add_view_for_next:
  assumes "\<forall>x\<in>set t. ref_of x \<noteq> resolve obj" "ref_of R = resolve obj"
    "\<forall>x\<in>set t. row_id x \<noteq> row_id R"
  shows "add_view_for now now' obj (t @ [R]) =
     (Inr (R\<lparr>views := views R + 1, last_view := now'\<rparr>),
      t @ [R\<lparr>views := views R + 1, last_view := now'\<rparr>])"
proof -
  have "get (ct_get_for_model (cls obj)) (pk obj) (t @ [R]) = Inr R"
    using assms(1,2) by (intro get_append_single) (simp_all add: resolve_def)
  then have g: "get_for_object now obj True (t @ [R]) = (Inr R, t @ [R])"
    by (simp add: get_for_object_def Let_def get_or_create_def)
  have "increment now' R (t @ [R]) =
     (Inr (R\<lparr>views := views R + 1, last_view := now'\<rparr>),
      t @ [R\<lparr>views := views R + 1, last_view := now'\<rparr>])"
    using assms by (intro increment_append_single) simp_all
  then show ?thesis using g by (simp add: add_view_for_def)
qed

lemma add_view_for_times_next:
  assumes "\<forall>x\<in>set t. ref_of x \<noteq> resolve obj" "ref_of R = resolve obj"
    "\<forall>x\<in>set t. row_id x \<noteq> row_id R"
  shows "\<exists>R'. add_view_for_times ns obj (t @ [R]) = Inr (t @ [R']) \<and>
           ref_of R' = resolve obj \<and> views R' = views R + length ns"
  using assms
proof (induction ns arbitrary: R)
  case Nil
  then show ?case by simp
next
  case (Cons n ns)
  obtain now now' where n: "n = (now, now')" by (cases n)
  let ?R1 = "R\<lparr>views := views R + 1, last_view := now'\<rparr>"
  have step: "add_view_for now now' obj (t @ [R]) = (Inr ?R1, t @ [?R1])"
    using Cons.prems by (rule add_view_for_next)
  have "ref_of ?R1 = resolve obj" "\<forall>x\<in>set t. row_id x \<noteq> row_id ?R1"
    using Cons.prems by (simp_all add: ref_of_def)
  from Cons.IH[OF Cons.prems(1) this]
  obtain R' where "add_view_for_times ns obj (t @ [?R1]) = Inr (t @ [R'])"
    "ref_of R' = resolve obj" "views R' = views ?R1 + length ns" by blast
  then show ?case using n step by simp
qed

lemma add_view_for_times_absent:
  assumes "\<forall>x\<in>set t. ref_of x \<noteq> resolve obj" "ns \<noteq> []"
  shows "\<exists>R. add_view_for_times ns obj t = Inr (t @ [R]) \<and>
           ref_of R = resolve obj \<and> views R = length ns"
proof -
  obtain now now' ms where ns: "ns = (now, now') # ms"
    using assms(2) by (cases ns) auto
  let ?R1 = "\<lparr>row_id = fresh_id t, content_type = ct_get_for_model (cls obj),
               object_id = pk obj, first_view = now, last_view = now', views = 1\<rparr>"
  have first: "add_view_for now now' obj t = (Inr ?R1, t @ [?R1])"
    using assms(1) by (rule add_view_for_first)
  have "ref_of ?R1 = resolve obj" by (simp add: ref_of_def resolve_def)
  moreover have "\<forall>x\<in>set t. row_id x \<noteq> row_id ?R1"
    using fresh_id_gt[of _ t] by fastforce
  ultimately obtain R where "add_view_for_times ms obj (t @ [?R1]) = Inr (t @ [R])"
    "ref_of R = resolve obj" "views R = views ?R1 + length ms"
    using add_view_for_times_next[OF assms(1), of ?R1 ms] by blast
  then show ?thesis using ns first by simp
qed

text \<open>
  C6: from a table with no record for an object, \<^verbatim>\<open>add_view_for\<close> called \<open>N \<ge> 1\<close>
  times, one call after the other, for that object succeeds every time and leaves exactly
  one record for the object, whose views are \<open>N\<close>; \<^verbatim>\<open>get_views_for\<close> then returns
  \<open>N\<close>.
\<close>

theorem add_view_for_n_times:
  assumes "\<forall>x\<in>set t. ref_of x \<noteq> resolve obj" "ns \<noteq> []"
  shows "\<exists>r t'. add_view_for_times ns obj t = Inr t' \<and>
           filter (\<lambda>x. ref_of x = resolve obj) t' = [r] \<and>
           views r = length ns \<and>
           get_views_for now obj t' = (Inr (length ns), t')"
proof -
  obtain R where R: "add_view_for_times ns obj t = Inr (t @ [R])"
    "ref_of R = resolve obj" "views R = length ns"
    using add_view_for_times_absent[OF assms] by blast
  have f: "filter (\<lambda>x. ref_of x = resolve obj) (t @ [R]) = [R]"
    using assms(1) R(2) by (simp add: filter_empty_conv)
  have "get (ct_get_for_model (cls obj)) (pk obj) (t @ [R]) = Inr R"
    using assms(1) R(2) by (intro get_append_single) (simp_all add: resolve_def)
  then have "get_views_for now obj (t @ [R]) = (Inr (views R), t @ [R])"
    by (simp add: get_views_for_def get_for_object_def Let_def)
  then show ?thesis using R f by simp
qed

theorem add_view_for_n_times_witness:
  "[(1, 2), (3, 4), (5, 6)] \<noteq> ([] :: (timestamp \<times> timestamp) list) \<and>
   (\<exists>r t'. add_view_for_times [(1, 2), (3, 4), (5, 6)] entry7 [rec_b, rec_c] = Inr t' \<and>
      filter (\<lambda>x. ref_of x = resolve entry7) t' = [r] \<and>
      views r = length [(1 :: timestamp, 2 :: timestamp), (3, 4), (5, 6)] \<and>
      get_views_for 9 entry7 t' =
        (Inr (length [(1 :: timestamp, 2 :: timestamp), (3, 4), (5, 6)]), t'))"
proof -
  have absent: "\<forall>x\<in>set [rec_b, rec_c]. ref_of x \<noteq> resolve entry7"
    by (simp add: ref_of_def resolve_def)
  have ne: "[(1, 2), (3, 4), (5, 6)] \<noteq> ([] :: (timestamp \<times> timestamp) list)"
    by simp
  show ?thesis
    using ne add_view_for_n_times [OF absent ne, of 9] by blast
qed

section \<open>Overlapping increments\<close>

lemma step_request_twice:
  "step_request now' (fst (step_request now (Pending obj) t))
       (snd (step_request now (Pending obj) t)) =
     (case add_view_for now now' obj t of
        (Inl e, t') \<Rightarrow> (Failed e, t')
      | (Inr viewtracker, t') \<Rightarrow> (Finished viewtracker, t'))"
  by (simp add: step_request_def add_view_for_def split: prod.splits sum.splits)

lemma run_serial_schedule:
  assumes "add_view_for_times ns obj t = Inr t'" "i + length ns \<le> length rqs"
    "\<forall>j. i \<le> j \<and> j < i + length ns \<longrightarrow> rqs ! j = Pending obj"
  shows "snd (run_schedule (serial_schedule i ns) rqs t) = t'"
  using assms
proof (induction ns arbitrary: i rqs t)
  case Nil
  then show ?case by simp
next
  case (Cons n ns)
  obtain now now' where n: "n = (now, now')" by (cases n)
  obtain res t1 where a: "add_view_for now now' obj t = (res, t1)"
    by (cases "add_view_for now now' obj t")
  obtain vt where res: "res = Inr vt"
    using Cons.prems(1) n a by (cases res) simp_all
  have rest: "add_view_for_times ns obj t1 = Inr t'"
    using Cons.prems(1) n a res by simp
  have i: "i < length rqs" "rqs ! i = Pending obj"
    using Cons.prems(2,3) by simp_all
  obtain rq0 t0 where s0: "step_request now (Pending obj) t = (rq0, t0)"
    by (cases "step_request now (Pending obj) t")
  have s1: "step_request now' rq0 t0 = (Finished vt, t1)"
    using step_request_twice[of now' now obj t] s0 a res by simp
  let ?rqs = "rqs[i := Finished vt]"
  have "Suc i + length ns \<le> length ?rqs"
    using Cons.prems(2) by simp
  moreover have "\<forall>j. Suc i \<le> j \<and> j < Suc i + length ns \<longrightarrow> ?rqs ! j = Pending obj"
    using Cons.prems(3) by simp
  ultimately have "snd (run_schedule (serial_schedule (Suc i) ns) ?rqs t1) = t'"
    using Cons.IH[OF rest] by blast
  then show ?case
    using n i s0 s1 by simp
qed


lemma increment_present:
  assumes "distinct (map ref_of t)" "r \<in> set t"
  shows "increment now r t =
     (Inr (r\<lparr>views := views r + 1, last_view := now\<rparr>),
      map (\<lambda>x. if row_id x = row_id r then r\<lparr>views := views r + 1, last_view := now\<rparr> else x) t)"
proof -
  let ?self = "r\<lparr>views := views r + 1\<rparr>"
  have "x = r" if "x \<in> set t" "ref_of x = ref_of r" for x
    using assms that by (meson distinct_map inj_onD)
  then have "\<forall>x\<in>set t. ref_of x = ref_of ?self \<longrightarrow> row_id x = row_id ?self"
    by (auto simp: ref_of_def)
  moreover have "\<exists>x\<in>set t. row_id x = row_id ?self"
    using assms(2) by auto
  ultimately have "save now ?self t =
     (Inr (?self\<lparr>last_view := now\<rparr>),
      map (\<lambda>x. if row_id x = row_id ?self then ?self\<lparr>last_view := now\<rparr> else x) t)"
    by (rule save_update)
  then show ?thesis by (simp add: increment_def)
qed

lemma add_view_for_two_steps:
  assumes "distinct (map ref_of t)"
  shows "\<exists>r t1. get_for_object now obj True t = (Inr r, t1) \<and>
           add_view_for now now' obj t =
             (Inr (r\<lparr>views := views r + 1, last_view := now'\<rparr>),
              map (\<lambda>x. if row_id x = row_id r
                        then r\<lparr>views := views r + 1, last_view := now'\<rparr> else x) t1)"
proof -
  obtain r t1 where g: "get_or_create now (ct_get_for_model (cls obj)) (pk obj) t = (Inr r, t1)"
    and f: "filter (\<lambda>x. ref_of x = (ct_get_for_model (cls obj), pk obj)) t1 = [r]"
    using get_or_create_twice[OF assms, of now "ct_get_for_model (cls obj)" "pk obj" now]
    by blast
  have "r \<in> set (filter (\<lambda>x. ref_of x = (ct_get_for_model (cls obj), pk obj)) t1)"
    using f by simp
  then have r: "r \<in> set t1" by simp
  have "t1 = t \<or> (\<forall>x\<in>set t. ref_of x \<noteq> ref_of r) \<and> t1 = t @ [r]"
  proof (cases "\<exists>x\<in>set t. ref_of x = (ct_get_for_model (cls obj), pk obj)")
    case True
    then obtain x where "x \<in> set t" "ref_of x = (ct_get_for_model (cls obj), pk obj)" by blast
    then show ?thesis
      using get_or_create_present[OF assms, of x "ct_get_for_model (cls obj)" "pk obj" now] g
      by simp
  next
    case False
    then have "\<forall>x\<in>set t. ref_of x \<noteq> (ct_get_for_model (cls obj), pk obj)" by blast
    then show ?thesis
      using get_or_create_absent[of t "ct_get_for_model (cls obj)" "pk obj" now] g
      by (auto simp: ref_of_def)
  qed
  then have d1: "distinct (map ref_of t1)"
    using assms by (fastforce simp: image_iff)
  show ?thesis
    using g increment_present[OF d1 r, of now']
    by (simp add: add_view_for_def get_for_object_def Let_def)
qed

lemma add_view_for_present:
  assumes "distinct (map ref_of t)" "r \<in> set t" "ref_of r = resolve obj"
  shows "add_view_for now now' obj t =
     (Inr (r\<lparr>views := views r + 1, last_view := now'\<rparr>),
      map (\<lambda>x. if row_id x = row_id r
                then r\<lparr>views := views r + 1, last_view := now'\<rparr> else x) t)"
proof -
  have "get_for_object now obj True t = (Inr r, t)"
    using get_or_create_present[OF assms(1,2), of "ct_get_for_model (cls obj)" "pk obj" now]
      assms(3)
    by (simp add: get_for_object_def Let_def resolve_def)
  then show ?thesis
    using increment_present[OF assms(1,2), of now'] by (simp add: add_view_for_def)
qed

lemma add_view_for_times_present:
  assumes "wf_table t" "r \<in> set t" "ref_of r = resolve obj"
  shows "\<exists>t' r'. add_view_for_times ns obj t = Inr t' \<and>
           filter (\<lambda>x. ref_of x = resolve obj) t' = [r'] \<and>
           views r' = views r + length ns"
  using assms
proof (induction ns arbitrary: t r)
  case Nil
  have "filter (\<lambda>x. ref_of x = resolve obj) t = [r]"
    using filter_ref_distinct[of t r] Nil by (simp add: wf_table_def)
  then show ?case by simp
next
  case (Cons n ns)
  obtain now now' where n: "n = (now, now')" by (cases n)
  let ?r1 = "r\<lparr>views := views r + 1, last_view := now'\<rparr>"
  let ?t1 = "map (\<lambda>x. if row_id x = row_id r then ?r1 else x) t"
  have d: "distinct (map ref_of t)"
    using Cons.prems(1) by (simp add: wf_table_def)
  have step: "add_view_for now now' obj t = (Inr ?r1, ?t1)"
    using d Cons.prems(2,3) by (rule add_view_for_present)
  have wf1: "wf_table ?t1"
    using wf_add_view_for[OF Cons.prems(1), of now now' obj] step by simp
  have in1: "?r1 \<in> set ?t1"
    using Cons.prems(2) by (auto simp: image_iff)
  have ref1: "ref_of ?r1 = resolve obj"
    using Cons.prems(3) by (simp add: ref_of_def)
  obtain t' r' where "add_view_for_times ns obj ?t1 = Inr t'"
    "filter (\<lambda>x. ref_of x = resolve obj) t' = [r']" "views r' = views ?r1 + length ns"
    using Cons.IH[OF wf1 in1 ref1] by blast
  then show ?case using n step by simp
qed

text \<open>
  C1 asks that the increments of requests running at the same time are all counted.  Two
  requests for the same new object, each loading the record before the other saves it,
  both finish, and the record counts one view, not two.
\<close>

theorem concurrent_increments_lose_update:
  "run_schedule [(0, 1), (1, 2), (0, 3), (1, 4)] [Pending entry7, Pending entry7] [] =
   ([Finished \<lparr>row_id = 1, content_type = ContentType ''blog'' ''entry'', object_id = 7,
               first_view = 1, last_view = 3, views = 1\<rparr>,
     Finished \<lparr>row_id = 1, content_type = ContentType ''blog'' ''entry'', object_id = 7,
               first_view = 1, last_view = 4, views = 1\<rparr>],
    [\<lparr>row_id = 1, content_type = ContentType ''blog'' ''entry'', object_id = 7,
      first_view = 1, last_view = 4, views = 1\<rparr>]) \<and>
   fst (get_views_for 5 entry7
         (snd (run_schedule [(0, 1), (1, 2), (0, 3), (1, 4)]
                 [Pending entry7, Pending entry7] []))) \<noteq>
     Inr (length [Pending entry7, Pending entry7])"
  by (simp add: step_request_def get_for_object_def get_or_create_def get_def save_def
      increment_def fresh_id_def ref_of_def get_views_for_def Let_def)

text \<open>
  C1 as the code has it: \<^verbatim>\<open>add_view_for\<close> is the lookup-or-creation of the record
  followed by the save of that record with one more view and the last view set to the
  clock, two accesses to the table.  When \<open>N\<close> requests for the same object run one
  after the other (each request's save directly after its own load), all \<open>N\<close> are
  counted: if the object had no record and \<open>N \<ge> 1\<close>, exactly one record for it results
  and its views are \<open>N\<close>; if a well-formed table had a record for it, exactly one record
  for it results and its views are the former views plus \<open>N\<close>.
\<close>

theorem increment_is_load_then_save:
  "(distinct (map ref_of t) \<longrightarrow>
      (\<exists>r t1. get_for_object now obj True t = (Inr r, t1) \<and>
         add_view_for now now' obj t =
           (Inr (r\<lparr>views := views r + 1, last_view := now'\<rparr>),
            map (\<lambda>x. if row_id x = row_id r
                      then r\<lparr>views := views r + 1, last_view := now'\<rparr> else x) t1))) \<and>
   ((\<forall>x\<in>set t. ref_of x \<noteq> resolve obj) \<and> ns \<noteq> [] \<longrightarrow>
      (\<exists>r. filter (\<lambda>x. ref_of x = resolve obj)
              (snd (run_schedule (serial_schedule 0 ns)
                      (replicate (length ns) (Pending obj)) t)) = [r] \<and>
           views r = length ns)) \<and>
   (wf_table t \<and> r0 \<in> set t \<and> ref_of r0 = resolve obj \<longrightarrow>
      (\<exists>r. filter (\<lambda>x. ref_of x = resolve obj)
              (snd (run_schedule (serial_schedule 0 ns)
                      (replicate (length ns) (Pending obj)) t)) = [r] \<and>
           views r = views r0 + length ns))"
proof -
  have present: "\<exists>r. filter (\<lambda>x. ref_of x = resolve obj)
              (snd (run_schedule (serial_schedule 0 ns)
                      (replicate (length ns) (Pending obj)) t)) = [r] \<and>
           views r = views r0 + length ns"
    if h: "wf_table t" "r0 \<in> set t" "ref_of r0 = resolve obj"
  proof -
    obtain t' r' where t': "add_view_for_times ns obj t = Inr t'"
      "filter (\<lambda>x. ref_of x = resolve obj) t' = [r']" "views r' = views r0 + length ns"
      using add_view_for_times_present[OF h, of ns] by blast
    have "snd (run_schedule (serial_schedule 0 ns) (replicate (length ns) (Pending obj)) t)
            = t'"
      using t'(1) by (rule run_serial_schedule) simp_all
    then show ?thesis using t'(2,3) by simp
  qed
  have "\<exists>r. filter (\<lambda>x. ref_of x = resolve obj)
              (snd (run_schedule (serial_schedule 0 ns)
                      (replicate (length ns) (Pending obj)) t)) = [r] \<and>
           views r = length ns"
    if absent: "\<forall>x\<in>set t. ref_of x \<noteq> resolve obj" and ne: "ns \<noteq> []"
  proof -
    obtain R where R: "add_view_for_times ns obj t = Inr (t @ [R])"
      "ref_of R = resolve obj" "views R = length ns"
      using add_view_for_times_absent[OF absent ne] by blast
    have "snd (run_schedule (serial_schedule 0 ns) (replicate (length ns) (Pending obj)) t)
            = t @ [R]"
      using R(1) by (rule run_serial_schedule) simp_all
    moreover have "filter (\<lambda>x. ref_of x = resolve obj) (t @ [R]) = [R]"
      using absent R(2) by (simp add: filter_empty_conv)
    ultimately show ?thesis using R(3) by simp
  qed
  then show ?thesis using present add_view_for_two_steps[of t now obj now'] by blast
qed

theorem increment_is_load_then_save_witness:
  "distinct (map ref_of [rec_b, rec_c]) \<and>
   filter (\<lambda>x. ref_of x = resolve entry7) [rec_b, rec_c] = [] \<and>
   [(1, 2), (3, 4)] \<noteq> ([] :: (timestamp \<times> timestamp) list) \<and>
   (\<exists>r. filter (\<lambda>x. ref_of x = resolve entry7)
           (snd (run_schedule (serial_schedule 0 [(1, 2), (3, 4)])
                   (replicate (length [(1 :: timestamp, 2 :: timestamp), (3, 4)])
                      (Pending entry7)) [rec_b, rec_c])) = [r] \<and>
        views r = length [(1 :: timestamp, 2 :: timestamp), (3, 4)]) \<and>
   wf_table [rec_a, rec_b, rec_c] \<and> ref_of rec_b = resolve entry8 \<and>
   (\<exists>r. filter (\<lambda>x. ref_of x = resolve entry8)
           (snd (run_schedule (serial_schedule 0 [(1, 2), (3, 4)])
                   (replicate (length [(1 :: timestamp, 2 :: timestamp), (3, 4)])
                      (Pending entry8)) [rec_a, rec_b, rec_c])) = [r] \<and>
        views r = views rec_b + length [(1 :: timestamp, 2 :: timestamp), (3, 4)])"
proof -
  have wf: "wf_table [rec_a, rec_b, rec_c]"
    by (simp add: wf_table_def ref_of_def)
  have b: "rec_b \<in> set [rec_a, rec_b, rec_c]" "ref_of rec_b = resolve entry8"
    by (simp_all add: ref_of_def resolve_def)
  have second: "\<exists>r. filter (\<lambda>x. ref_of x = resolve entry8)
           (snd (run_schedule (serial_schedule 0 [(1, 2), (3, 4)])
                   (replicate (length [(1 :: timestamp, 2 :: timestamp), (3, 4)])
                      (Pending entry8)) [rec_a, rec_b, rec_c])) = [r] \<and>
        views r = views rec_b + length [(1 :: timestamp, 2 :: timestamp), (3, 4)]"
    using wf b
      increment_is_load_then_save
        [of "[rec_a, rec_b, rec_c]" 1 entry8 2 "[(1, 2), (3, 4)]" rec_b]
    by blast
  have d: "distinct (map ref_of [rec_b, rec_c])"
    by (simp add: ref_of_def)
  have absent: "\<forall>x\<in>set [rec_b, rec_c]. ref_of x \<noteq> resolve entry7"
    by (simp add: ref_of_def resolve_def)
  have none: "filter (\<lambda>x. ref_of x = resolve entry7) [rec_b, rec_c] = []"
    by (simp add: ref_of_def resolve_def)
  have ne: "[(1, 2), (3, 4)] \<noteq> ([] :: (timestamp \<times> timestamp) list)"
    by simp
  have first: "\<exists>r. filter (\<lambda>x. ref_of x = resolve entry7)
           (snd (run_schedule (serial_schedule 0 [(1, 2), (3, 4)])
                   (replicate (length [(1 :: timestamp, 2 :: timestamp), (3, 4)])
                      (Pending entry7)) [rec_b, rec_c])) = [r] \<and>
        views r = length [(1 :: timestamp, 2 :: timestamp), (3, 4)]"
    using absent ne
      increment_is_load_then_save [of "[rec_b, rec_c]" 1 entry7 2 "[(1, 2), (3, 4)]"]
    by blast
  show ?thesis
    using d none ne first wf b(2) second by blast
qed

end
